theory Spec2Isabelle
  imports Main
begin

section \<open>Python strings\<close>

text \<open>
  A Python \<^verbatim>\<open>str\<close> is a sequence of Unicode code points. A code point is a natural
  number here and a string a list of them, so that \<^verbatim>\<open>strip\<close> and \<^verbatim>\<open>split\<close>
  see the characters Python sees. The theorems below hold for every list of numbers,
  the valid code points among them.
\<close>

type_synonym str = "nat list"

text \<open>An ASCII literal of the source, character by character.\<close>

definition lit :: "string \<Rightarrow> str" where
  "lit cs = map of_char cs"

definition comma :: nat where
  "comma = 44"

definition newline :: nat where
  "newline = 10"

text \<open>
  The characters \<^verbatim>\<open>str.strip()\<close> removes when it is called without an argument:
  those for which CPython's \<^verbatim>\<open>Py_UNICODE_ISSPACE\<close> holds (the ASCII controls 9 to 13
  and 28 to 31, the space, and the Unicode white space beyond ASCII).
\<close>

definition is_space :: "nat \<Rightarrow> bool" where
  "is_space c \<longleftrightarrow>
     (9 \<le> c \<and> c \<le> 13) \<or> (28 \<le> c \<and> c \<le> 32) \<or> c = 133 \<or> c = 160 \<or> c = 5760 \<or>
     (8192 \<le> c \<and> c \<le> 8202) \<or> c = 8232 \<or> c = 8233 \<or> c = 8239 \<or> c = 8287 \<or> c = 12288"

definition lstrip :: "str \<Rightarrow> str" where
  "lstrip s = dropWhile is_space s"

definition rstrip :: "str \<Rightarrow> str" where
  "rstrip s = rev (dropWhile is_space (rev s))"

definition strip :: "str \<Rightarrow> str" where
  "strip s = rstrip (lstrip s)"

text \<open>
  \<^verbatim>\<open>s.split(sep)\<close> for a separator of one character: the text is cut at every
  occurrence of the separator, so the result has one part more than there are
  separators, and the empty text gives one empty part. \<open>cur\<close> is the part being read.
\<close>

fun split_from :: "nat \<Rightarrow> str \<Rightarrow> str \<Rightarrow> str list" where
  "split_from sep cur [] = [cur]"
| "split_from sep cur (c # cs) =
     (if c = sep then cur # split_from sep [] cs else split_from sep (cur @ [c]) cs)"

definition split :: "str \<Rightarrow> nat \<Rightarrow> str list" where
  "split s sep = split_from sep [] s"

section \<open>Errors\<close>

text \<open>
  The two exceptions the code can raise: \<^verbatim>\<open>ValueError\<close> when a line does not unpack
  into two names (the specification calls it FormatError), and \<^verbatim>\<open>KeyError\<close> when
  a dictionary has no such key.
\<close>

datatype error = ValueError | KeyError

section \<open>Version records and their download links\<close>

record CursorVersion =
  version :: str
  build_id :: str

text \<open>
  The dictionary \<^verbatim>\<open>get_download_links\<close> returns, as association lists in the order
  of insertion, which is the order in which Python iterates a dictionary.
\<close>

type_synonym links = "(str \<times> (str \<times> str) list) list"

definition get_download_links :: "CursorVersion \<Rightarrow> links" where
  "get_download_links self =
     (let base_url = lit ''https://downloader.cursor.sh/builds/'' @ build_id self in
      [(lit ''windows'',
          [(lit ''x64'', base_url @ lit ''/windows/nsis/x64''),
           (lit ''arm64'', base_url @ lit ''/windows/nsis/arm64'')]),
       (lit ''mac'',
          [(lit ''universal'', base_url @ lit ''/mac/installer/universal''),
           (lit ''arm64'', base_url @ lit ''/mac/installer/arm64''),
           (lit ''x64'', base_url @ lit ''/mac/installer/x64'')]),
       (lit ''linux'',
          [(lit ''x64'', base_url @ lit ''/linux/appImage/x64'')])])"



section \<open>The record parser\<close>

text \<open>
  The loop of \<^verbatim>\<open>parse_versions\<close> over the lines, with the list \<open>versions\<close> it appends
  to. An empty line is skipped before anything is stripped; every other line is
  stripped, split at its commas and unpacked into two names, which raises unless the
  split has exactly two parts.
\<close>

fun parse_lines :: "str list \<Rightarrow> CursorVersion list \<Rightarrow> error + CursorVersion list" where
  "parse_lines [] versions = Inr versions"
| "parse_lines (line # rest) versions =
     (if line = [] then parse_lines rest versions
      else (case split (strip line) comma of
              [v, b] \<Rightarrow> parse_lines rest (versions @ [\<lparr>version = v, build_id = b\<rparr>])
            | _ \<Rightarrow> Inl ValueError))"

definition parse_versions :: "str \<Rightarrow> error + CursorVersion list" where
  "parse_versions data = parse_lines (split (strip data) newline) []"

section \<open>The document renderer\<close>










section \<open>The structured and the tabular output\<close>

text \<open>
  The value \<^verbatim>\<open>main\<close> hands to \<^verbatim>\<open>json.dump\<close>: strings, lists and dictionaries with
  their keys in the order of insertion.
\<close>

datatype json = JString str | JArray "json list" | JObject "(str \<times> json) list"

definition links_json :: "links \<Rightarrow> json" where
  "links_json d =
     JObject (map (\<lambda>(platform, archs). (platform, JObject (map (\<lambda>(arch, url). (arch, JString url)) archs))) d)"

text \<open>The loop that appends one \<^verbatim>\<open>version_info\<close> per version to \<^verbatim>\<open>result["versions"]\<close>.\<close>

fun append_version_infos :: "CursorVersion list \<Rightarrow> json list \<Rightarrow> json list" where
  "append_version_infos [] result_versions = result_versions"
| "append_version_infos (v # versions) result_versions =
     append_version_infos versions
       (result_versions @
          [JObject [(lit ''version'', JString (version v)),
                    (lit ''build_id'', JString (build_id v)),
                    (lit ''downloads'', links_json (get_download_links v))]])"

definition json_result :: "CursorVersion list \<Rightarrow> json" where
  "json_result versions = JObject [(lit ''versions'', JArray (append_version_infos versions []))]"

text \<open>
  The table \<^verbatim>\<open>main\<close> writes through \<^verbatim>\<open>csv.writer\<close>: the state is the list of the
  rows written so far, a row being the list of fields \<^verbatim>\<open>writerow\<close> received. The
  three nested loops run over the versions, over the items of the dictionary of links
  and over the items of each platform's dictionary.
\<close>

fun write_archs :: "str \<Rightarrow> str \<Rightarrow> (str \<times> str) list \<Rightarrow> str list list \<Rightarrow> str list list" where
  "write_archs ver platform [] rows = rows"
| "write_archs ver platform ((arch, url) # archs) rows =
     write_archs ver platform archs (rows @ [[ver, platform, arch, url]])"

fun write_platforms :: "str \<Rightarrow> links \<Rightarrow> str list list \<Rightarrow> str list list" where
  "write_platforms ver [] rows = rows"
| "write_platforms ver ((platform, archs) # d) rows =
     write_platforms ver d (write_archs ver platform archs rows)"

fun write_versions :: "CursorVersion list \<Rightarrow> str list list \<Rightarrow> str list list" where
  "write_versions [] rows = rows"
| "write_versions (v # versions) rows =
     write_versions versions (write_platforms (version v) (get_download_links v) rows)"

definition csv_rows :: "CursorVersion list \<Rightarrow> str list list" where
  "csv_rows versions =
     write_versions versions [[lit ''Version'', lit ''Platform'', lit ''Architecture'', lit ''Download URL'']]"

section \<open>The notions of the specification\<close>

text \<open>
  The suffix table as the specification prints it, one line per platform and
  architecture, in the specification's order.
\<close>

definition suffix_table :: "((str \<times> str) \<times> str) list" where
  "suffix_table =
     [((lit ''windows'', lit ''x64''), lit ''/windows/nsis/x64''),
      ((lit ''windows'', lit ''arm64''), lit ''/windows/nsis/arm64''),
      ((lit ''mac'', lit ''universal''), lit ''/mac/installer/universal''),
      ((lit ''mac'', lit ''arm64''), lit ''/mac/installer/arm64''),
      ((lit ''mac'', lit ''x64''), lit ''/mac/installer/x64''),
      ((lit ''linux'', lit ''x64''), lit ''/linux/appImage/x64'')]"

text \<open>The URL the specification gives for a build and a suffix.\<close>

definition url_of :: "str \<Rightarrow> str \<Rightarrow> str" where
  "url_of build suffix = lit ''https://downloader.cursor.sh/builds/'' @ build @ suffix"

text \<open>
  The entries of a two-level dictionary, each under its pair of keys, in iteration order.
\<close>

definition entries :: "links \<Rightarrow> ((str \<times> str) \<times> str) list" where
  "entries d = concat (map (\<lambda>(platform, archs). map (\<lambda>(arch, url). ((platform, arch), url)) archs) d)"

text \<open>
  The split the specification describes for a line: the text before the first comma
  and all the text after it.
\<close>

definition split_first_comma :: "str \<Rightarrow> str \<times> str" where
  "split_first_comma s = (takeWhile (\<lambda>c. c \<noteq> comma) s, tl (dropWhile (\<lambda>c. c \<noteq> comma) s))"

text \<open>The record that this split gives for a line once the line is stripped.\<close>

definition line_record :: "str \<Rightarrow> CursorVersion" where
  "line_record line =
     \<lparr>version = fst (split_first_comma (strip line)), build_id = snd (split_first_comma (strip line))\<rparr>"

text \<open>
  The lines of a text that have a character other than white space, each stripped, in
  the order of the text.
\<close>

definition nonblank_lines :: "str \<Rightarrow> str list" where
  "nonblank_lines s = map strip (filter (\<lambda>l. strip l \<noteq> []) (split s newline))"

text \<open>
  The serialisation the round-trip property of the specification speaks of: one line
  \<^verbatim>\<open>version,build_id\<close> per record, the lines joined by newlines. The repository
  has no serialiser; this one follows the specification's words.
\<close>

fun join_lines :: "str list \<Rightarrow> str" where
  "join_lines [] = []"
| "join_lines [l] = l"
| "join_lines (l # m # ls) = l @ newline # join_lines (m # ls)"

definition record_line :: "CursorVersion \<Rightarrow> str" where
  "record_line v = version v @ comma # build_id v"

definition serialize :: "CursorVersion list \<Rightarrow> str" where
  "serialize versions = join_lines (map record_line versions)"


section \<open>Literals and evaluation\<close>

lemma lit_eq_iff [simp]: "lit a = lit b \<longleftrightarrow> a = b"
  unfolding lit_def by (rule inj_map_eq_map [OF inj_of_char])

lemma lit_Nil [simp]: "lit [] = []"
  by (simp add: lit_def)

text \<open>The definitions that evaluate the parser on a text given character by character.\<close>

lemmas eval_defs = parse_versions_def lit_def strip_def lstrip_def rstrip_def is_space_def
  split_def comma_def newline_def

section \<open>Splitting\<close>

lemma split_from_cur:
  "split_from sep cur s = (cur @ hd (split_from sep [] s)) # tl (split_from sep [] s)"
proof (induction s arbitrary: cur)
  case Nil
  show ?case by simp
next
  case (Cons c s)
  show ?case
  proof (cases "c = sep")
    case True
    then show ?thesis by simp
  next
    case False
    have "split_from sep (cur @ [c]) s = ((cur @ [c]) @ hd (split_from sep [] s)) # tl (split_from sep [] s)"
      by (rule Cons.IH)
    moreover have "split_from sep [c] s = ([c] @ hd (split_from sep [] s)) # tl (split_from sep [] s)"
      by (rule Cons.IH)
    ultimately show ?thesis using False by simp
  qed
qed

lemma split_Nil [simp]: "split [] sep = [[]]"
  by (simp add: split_def)

lemma split_Cons:
  "split (c # s) sep = (if c = sep then [] # split s sep else (c # hd (split s sep)) # tl (split s sep))"
  using split_from_cur [of sep "[c]" s] by (simp add: split_def)

lemma split_not_Nil [simp]: "split s sep \<noteq> []"
  by (cases s) (simp_all add: split_Cons)

lemma split_no_sep: "sep \<notin> set s \<Longrightarrow> split s sep = [s]"
  by (induction s) (simp_all add: split_Cons)

lemma split_append: "split (a @ sep # b) sep = split a sep @ split b sep"
proof (induction a)
  case Nil
  show ?case by (simp add: split_Cons)
next
  case (Cons c a)
  show ?case
  proof (cases "c = sep")
    case True
    then show ?thesis using Cons.IH by (simp add: split_Cons)
  next
    case False
    have "split a sep \<noteq> []" by simp
    then show ?thesis using False Cons.IH by (simp add: split_Cons)
  qed
qed

lemma length_split: "length (split s sep) = Suc (count_list s sep)"
proof (induction s)
  case Nil
  show ?case by simp
next
  case (Cons c s)
  have "split s sep \<noteq> []" by simp
  then have "length (tl (split s sep)) = length (split s sep) - 1" by simp
  with Cons show ?case by (simp add: split_Cons)
qed

lemma split_snoc:
  "split (s @ [c]) sep =
     (if c = sep then split s sep @ [[]] else butlast (split s sep) @ [last (split s sep) @ [c]])"
proof (induction s)
  case Nil
  show ?case by (simp add: split_Cons)
next
  case (Cons d s)
  have ne: "split s sep \<noteq> []" by simp
  obtain h t where ht: "split s sep = h # t" using ne by (cases "split s sep") auto
  show ?case
  proof (cases "c = sep")
    case True
    with Cons ht show ?thesis by (simp add: split_Cons)
  next
    case False
    with Cons ht show ?thesis by (cases t) (auto simp: split_Cons)
  qed
qed

lemma split_two:
  assumes "length (split s sep) = 2"
  shows "\<exists>a b. s = a @ sep # b \<and> sep \<notin> set a \<and> sep \<notin> set b \<and> split s sep = [a, b]"
proof -
  from assms have "count_list s sep = 1" by (simp add: length_split)
  then have "sep \<in> set s" by (metis count_list_0_iff zero_neq_one)
  then obtain a b where s: "s = a @ sep # b" and a: "sep \<notin> set a"
    by (meson split_list_first)
  have "split s sep = [a] @ split b sep"
    unfolding s using a by (simp add: split_append split_no_sep)
  with assms have "length (split b sep) = 1" by simp
  then have "count_list b sep = 0" by (simp add: length_split)
  then have b: "sep \<notin> set b" by (simp add: count_list_0_iff)
  have "split s sep = [a, b]"
    unfolding s using a b by (simp add: split_append split_no_sep)
  with s a b show ?thesis by blast
qed

lemma split_first_comma_one:
  "comma \<notin> set a \<Longrightarrow> split_first_comma (a @ comma # b) = (a, b)"
  by (induction a) (simp_all add: split_first_comma_def)

lemma case_two:
  "length xs \<noteq> 2 \<Longrightarrow> (case xs of [] \<Rightarrow> e | [x] \<Rightarrow> e | [x, y] \<Rightarrow> f x y | x # y # z # zs \<Rightarrow> e) = e"
  by (auto split: list.splits)

lemma parse_lines_step:
  assumes "line \<noteq> []"
  shows "parse_lines (line # rest) acc =
     (if length (split (strip line) comma) = 2 then parse_lines rest (acc @ [line_record line])
      else Inl ValueError)"
proof (cases "length (split (strip line) comma) = 2")
  case True
  then obtain a b where s: "strip line = a @ comma # b" and a: "comma \<notin> set a"
    and ab: "split (strip line) comma = [a, b]"
    using split_two by blast
  have "line_record line = \<lparr>version = a, build_id = b\<rparr>"
    by (simp add: line_record_def s split_first_comma_one [OF a])
  with assms True ab show ?thesis by simp
next
  case False
  with assms show ?thesis by (simp add: case_two)
qed

lemma parse_lines_eq:
  "parse_lines ls acc =
     (if \<forall>l\<in>set ls. l \<noteq> [] \<longrightarrow> length (split (strip l) comma) = 2
      then Inr (acc @ map line_record (filter (\<lambda>l. l \<noteq> []) ls)) else Inl ValueError)"
proof (induction ls arbitrary: acc)
  case Nil
  show ?case by simp
next
  case (Cons l ls)
  show ?case
  proof (cases "l = []")
    case True
    then show ?thesis using Cons.IH [of acc] by auto
  next
    case False
    show ?thesis
      using Cons.IH [of "acc @ [line_record l]"] False
      by (auto simp add: parse_lines_step [OF False] simp del: parse_lines.simps)
  qed
qed

section \<open>Stripping\<close>

lemma is_space_newline [simp]: "is_space newline"
  by (simp add: is_space_def newline_def)

lemma not_is_space_comma [simp]: "\<not> is_space comma"
  by (simp add: is_space_def comma_def)

lemma comma_neq_newline [simp]: "comma \<noteq> newline" "newline \<noteq> comma"
  by (simp_all add: comma_def newline_def)

lemma strip_Nil [simp]: "strip [] = []"
  by (simp add: strip_def lstrip_def rstrip_def)

lemma rstrip_eq_Nil_iff: "rstrip s = [] \<longleftrightarrow> (\<forall>c\<in>set s. is_space c)"
  by (simp add: rstrip_def dropWhile_eq_Nil_conv)

lemma lstrip_eq_Nil_iff: "lstrip s = [] \<longleftrightarrow> (\<forall>c\<in>set s. is_space c)"
  by (simp add: lstrip_def dropWhile_eq_Nil_conv)

lemma lstrip_hd: "lstrip s \<noteq> [] \<Longrightarrow> \<not> is_space (hd (lstrip s))"
  unfolding lstrip_def by (rule hd_dropWhile)

lemma strip_eq_Nil_iff: "strip s = [] \<longleftrightarrow> (\<forall>c\<in>set s. is_space c)"
proof
  assume "strip s = []"
  then have all: "\<forall>c\<in>set (lstrip s). is_space c"
    by (simp add: strip_def rstrip_eq_Nil_iff)
  have "lstrip s = []"
  proof (rule ccontr)
    assume ne: "lstrip s \<noteq> []"
    then have "\<not> is_space (hd (lstrip s))" by (rule lstrip_hd)
    moreover have "hd (lstrip s) \<in> set (lstrip s)" using ne by simp
    ultimately show False using all by blast
  qed
  then show "\<forall>c\<in>set s. is_space c" by (simp add: lstrip_eq_Nil_iff)
next
  assume "\<forall>c\<in>set s. is_space c"
  then have "lstrip s = []" by (simp add: lstrip_eq_Nil_iff)
  then show "strip s = []" by (simp add: strip_def rstrip_def)
qed

lemma lstrip_space_append: "strip w = [] \<Longrightarrow> lstrip (w @ s) = lstrip s"
  by (simp add: strip_eq_Nil_iff lstrip_def dropWhile_append2)

lemma lstrip_append: "strip a \<noteq> [] \<Longrightarrow> lstrip (a @ s) = lstrip a @ s"
  by (auto simp: strip_eq_Nil_iff lstrip_def dropWhile_append1)

lemma rstrip_append_space:
  assumes "strip w = []"
  shows "rstrip (s @ w) = rstrip s"
proof -
  have "dropWhile is_space (rev w @ rev s) = dropWhile is_space (rev s)"
    by (rule dropWhile_append2) (use assms in \<open>simp add: strip_eq_Nil_iff\<close>)
  then show ?thesis by (simp add: rstrip_def)
qed

lemma rstrip_append: "strip b \<noteq> [] \<Longrightarrow> rstrip (s @ b) = s @ rstrip b"
  by (auto simp: strip_eq_Nil_iff rstrip_def dropWhile_append1)

lemma strip_lstrip: "strip (lstrip a) = strip a"
  by (simp add: strip_def lstrip_def)

lemma strip_outer: "strip w = [] \<Longrightarrow> strip w' = [] \<Longrightarrow> strip (w @ s @ w') = strip s"
proof (cases "strip s = []")
  case True
  assume "strip w = []" "strip w' = []"
  with True have "strip (w @ s @ w') = []" by (auto simp: strip_eq_Nil_iff)
  with True show ?thesis by simp
next
  case False
  assume w: "strip w = []" and w': "strip w' = []"
  from False have "strip (lstrip s) \<noteq> []" by (simp add: strip_lstrip)
  then have "rstrip (lstrip s @ w') = rstrip (lstrip s)"
    using w' by (simp add: rstrip_append_space)
  moreover have "lstrip (w @ s @ w') = lstrip s @ w'"
    using w False by (simp add: lstrip_space_append lstrip_append)
  ultimately show ?thesis by (simp add: strip_def)
qed

lemma strip_space_left: "strip w = [] \<Longrightarrow> strip (w @ s) = strip s"
  using strip_outer [of w "[]" s] by simp

lemma strip_space_right: "strip w = [] \<Longrightarrow> strip (s @ w) = strip s"
  using strip_outer [of "[]" w s] by simp

lemma strip_middle:
  assumes "strip a \<noteq> []" and "strip b \<noteq> []"
  shows "strip (a @ m @ b) = lstrip a @ m @ rstrip b"
proof -
  have "lstrip (a @ m @ b) = lstrip a @ m @ b"
    using assms(1) by (simp add: lstrip_append)
  moreover have "rstrip ((lstrip a @ m) @ b) = (lstrip a @ m) @ rstrip b"
    using assms(2) by (rule rstrip_append)
  ultimately show ?thesis by (simp add: strip_def)
qed

lemma strip_single_space: "is_space c \<Longrightarrow> strip [c] = []"
  by (simp add: strip_eq_Nil_iff)

lemma nonblank_lines_Cons_space:
  assumes "is_space c"
  shows "nonblank_lines (c # s) = nonblank_lines s"
proof (cases "c = newline")
  case True
  then show ?thesis by (simp add: nonblank_lines_def split_Cons)
next
  case False
  obtain h t where ht: "split s newline = h # t"
    by (cases "split s newline") auto
  have "strip ([c] @ h) = strip h"
    using assms by (intro strip_space_left strip_single_space)
  then show ?thesis using False ht by (simp add: nonblank_lines_def split_Cons)
qed

lemma nonblank_lines_snoc_space:
  assumes "is_space c"
  shows "nonblank_lines (s @ [c]) = nonblank_lines s"
proof (cases "c = newline")
  case True
  then show ?thesis by (simp add: nonblank_lines_def split_snoc)
next
  case False
  obtain b l where bl: "split s newline = b @ [l]"
    by (cases "split s newline" rule: rev_cases) auto
  have st: "strip (l @ [c]) = strip l"
    using assms by (intro strip_space_right strip_single_space)
  have "split (s @ [c]) newline = b @ [l @ [c]]"
    using False bl by (simp add: split_snoc)
  then show ?thesis
    using bl st by (simp add: nonblank_lines_def)
qed

lemma nonblank_lines_lstrip: "nonblank_lines (lstrip s) = nonblank_lines s"
  by (induction s) (simp_all add: lstrip_def nonblank_lines_Cons_space)

lemma nonblank_lines_rstrip: "nonblank_lines (rstrip s) = nonblank_lines s"
proof (induction s rule: rev_induct)
  case Nil
  show ?case by (simp add: rstrip_def)
next
  case (snoc c s)
  show ?case
  proof (cases "is_space c")
    case True
    then have "rstrip (s @ [c]) = rstrip s" by (simp add: rstrip_def)
    with snoc True show ?thesis by (simp add: nonblank_lines_snoc_space)
  next
    case False
    then have "rstrip (s @ [c]) = s @ [c]" by (simp add: rstrip_def)
    then show ?thesis by simp
  qed
qed

lemma nonblank_lines_strip: "nonblank_lines (strip s) = nonblank_lines s"
  by (simp add: strip_def nonblank_lines_rstrip nonblank_lines_lstrip)

section \<open>The link generator\<close>

lemma entries_get_download_links:
  "entries (get_download_links v) = map (\<lambda>(k, suffix). (k, url_of (build_id v) suffix)) suffix_table"
  by (simp add: entries_def get_download_links_def suffix_table_def url_of_def Let_def)

text \<open>
  Claim C1. For every version record, whatever its two strings are, the dictionary of
  \<^verbatim>\<open>get_download_links\<close> has the three platforms as keys, each once, with the
  architectures of the specification under each, and its entries are exactly the six
  lines of the suffix table, in the table's order, each pair of keys once: the URL of
  an entry is \<^verbatim>\<open>https://downloader.cursor.sh/builds/\<close>, the build identifier and the
  suffix of its line. The function has no failing branch.
\<close>

theorem get_download_links_suffix_table:
  "entries (get_download_links v) =
     map (\<lambda>(k, suffix). (k, lit ''https://downloader.cursor.sh/builds/'' @ build_id v @ suffix)) suffix_table
   \<and> length (entries (get_download_links v)) = 6
   \<and> distinct (map fst (entries (get_download_links v)))
   \<and> map fst (get_download_links v) = [lit ''windows'', lit ''mac'', lit ''linux'']
   \<and> map (map fst \<circ> snd) (get_download_links v) =
       [[lit ''x64'', lit ''arm64''], [lit ''universal'', lit ''arm64'', lit ''x64''], [lit ''x64'']]"
proof -
  have e: "entries (get_download_links v) =
      map (\<lambda>(k, suffix). (k, lit ''https://downloader.cursor.sh/builds/'' @ build_id v @ suffix)) suffix_table"
    using entries_get_download_links [of v] by (simp add: url_of_def)
  have k: "map fst (entries (get_download_links v)) = map fst suffix_table"
    unfolding e by (simp add: suffix_table_def)
  have "distinct (map fst suffix_table)"
    by (simp add: suffix_table_def)
  then have d: "distinct (map fst (entries (get_download_links v)))"
    by (simp only: k)
  have l: "length (entries (get_download_links v)) = 6"
    unfolding e by (simp add: suffix_table_def)
  have p: "map fst (get_download_links v) = [lit ''windows'', lit ''mac'', lit ''linux'']"
    by (simp add: get_download_links_def Let_def)
  have a: "map (map fst \<circ> snd) (get_download_links v) =
       [[lit ''x64'', lit ''arm64''], [lit ''universal'', lit ''arm64'', lit ''x64''], [lit ''x64'']]"
    by (simp add: get_download_links_def Let_def)
  from e l d p a show ?thesis by (intro conjI)
qed

section \<open>The parser\<close>

lemma nonempty_lines_well_formed:
  assumes "\<forall>line\<in>set ls. line \<noteq> [] \<longrightarrow> length (split (strip line) comma) = 2"
  shows "filter (\<lambda>line. line \<noteq> []) ls = filter (\<lambda>line. strip line \<noteq> []) ls"
proof (rule filter_cong [OF refl])
  fix line assume "line \<in> set ls"
  with assms have "line \<noteq> [] \<longrightarrow> length (split (strip line) comma) = 2" by blast
  then have "line \<noteq> [] \<longrightarrow> strip line \<noteq> []" by auto
  moreover have "strip line \<noteq> [] \<longrightarrow> line \<noteq> []" by auto
  ultimately show "(line \<noteq> []) = (strip line \<noteq> [])" by blast
qed

lemma line_record_two:
  assumes "length (split (strip line) comma) = 2"
  shows "version (line_record line) @ comma # build_id (line_record line) = strip line"
    and "comma \<notin> set (version (line_record line))"
    and "comma \<notin> set (build_id (line_record line))"
proof -
  from assms obtain a b where s: "strip line = a @ comma # b" and a: "comma \<notin> set a"
    and b: "comma \<notin> set b"
    using split_two by blast
  have r: "line_record line = \<lparr>version = a, build_id = b\<rparr>"
    by (simp add: line_record_def s split_first_comma_one [OF a])
  show "version (line_record line) @ comma # build_id (line_record line) = strip line"
    by (simp add: r s)
  show "comma \<notin> set (version (line_record line))" by (simp add: r a)
  show "comma \<notin> set (build_id (line_record line))" by (simp add: r b)
qed

lemma parse_versions_accepted:
  assumes "\<forall>line\<in>set (split (strip data) newline). line \<noteq> [] \<longrightarrow> length (split (strip line) comma) = 2"
  shows "\<exists>versions. parse_versions data = Inr versions
     \<and> length versions = length (filter (\<lambda>line. line \<noteq> []) (split (strip data) newline))
     \<and> length versions = length (filter (\<lambda>line. strip line \<noteq> []) (split data newline))
     \<and> map (\<lambda>v. version v @ comma # build_id v) versions = nonblank_lines data
     \<and> (\<forall>v\<in>set versions. comma \<notin> set (version v) \<and> comma \<notin> set (build_id v))"
proof -
  let ?ls = "split (strip data) newline"
  let ?vs = "map line_record (filter (\<lambda>line. line \<noteq> []) ?ls)"
  have p: "parse_versions data = Inr ?vs"
    using assms by (simp add: parse_versions_def parse_lines_eq)
  have f: "filter (\<lambda>line. line \<noteq> []) ?ls = filter (\<lambda>line. strip line \<noteq> []) ?ls"
    using assms by (rule nonempty_lines_well_formed)
  have "map (\<lambda>v. version v @ comma # build_id v) ?vs = map strip (filter (\<lambda>line. line \<noteq> []) ?ls)"
    using assms by (simp add: line_record_two(1))
  also have "\<dots> = nonblank_lines (strip data)"
    by (simp add: f nonblank_lines_def)
  finally have m: "map (\<lambda>v. version v @ comma # build_id v) ?vs = nonblank_lines data"
    by (simp add: nonblank_lines_strip)
  have "length ?vs = length (nonblank_lines data)"
    using m by (metis length_map)
  then have n: "length ?vs = length (filter (\<lambda>line. strip line \<noteq> []) (split data newline))"
    by (simp add: nonblank_lines_def)
  have c: "\<forall>v\<in>set ?vs. comma \<notin> set (version v) \<and> comma \<notin> set (build_id v)"
    using assms by (auto simp: line_record_two)
  from p n m c show ?thesis by simp
qed

lemma well_formed_lines:
  assumes nat: "\<forall>line\<in>set (split data newline). strip line \<noteq> [] \<longrightarrow> length (split (strip line) comma) = 2"
    and ws: "\<forall>line\<in>set (split (strip data) newline). strip line = [] \<longrightarrow> line = []"
  shows "\<forall>line\<in>set (split (strip data) newline). line \<noteq> [] \<longrightarrow> length (split (strip line) comma) = 2"
proof (intro ballI impI)
  fix line
  assume l: "line \<in> set (split (strip data) newline)" and ne: "line \<noteq> []"
  from ws l ne have "strip line \<noteq> []" by blast
  with l have "strip line \<in> set (nonblank_lines (strip data))"
    by (simp add: nonblank_lines_def)
  then have "strip line \<in> set (nonblank_lines data)"
    by (simp add: nonblank_lines_strip)
  then obtain raw where r: "raw \<in> set (split data newline)" and n: "strip raw \<noteq> []"
    and e: "strip raw = strip line"
    by (auto simp: nonblank_lines_def)
  from nat r n have "length (split (strip raw) comma) = 2" by blast
  then show "length (split (strip line) comma) = 2" by (simp only: e)
qed

text \<open>
  Claim C4, as the code has it. The claim asks only that every non-blank line split
  into two fields; a line of white space between two lines of records is blank, and
  the parser does not skip it but fails on it. What holds: for every text in which
  every line that has a character other than white space splits, once stripped, into
  exactly two fields at the commas, and in which no line of the stripped text holds
  white space only without being empty, \<^verbatim>\<open>parse_versions\<close> returns a list of records
  with as many records as the input has non-blank lines, which is also the number of
  non-empty lines of the stripped text; and the records keep the order of the lines:
  written back as \<^verbatim>\<open>version,build_id\<close> they are the non-blank lines of the input,
  each stripped, in the input's order, and no field holds a comma.
\<close>

theorem parse_versions_well_formed:
  assumes "\<forall>line\<in>set (split data newline). strip line \<noteq> [] \<longrightarrow> length (split (strip line) comma) = 2"
    and "\<forall>line\<in>set (split (strip data) newline). strip line = [] \<longrightarrow> line = []"
  shows "\<exists>versions. parse_versions data = Inr versions
     \<and> length versions = length (filter (\<lambda>line. strip line \<noteq> []) (split data newline))
     \<and> length versions = length (filter (\<lambda>line. line \<noteq> []) (split (strip data) newline))
     \<and> map (\<lambda>v. version v @ comma # build_id v) versions = nonblank_lines data
     \<and> (\<forall>v\<in>set versions. comma \<notin> set (version v) \<and> comma \<notin> set (build_id v))"
proof -
  have "\<forall>line\<in>set (split (strip data) newline). line \<noteq> [] \<longrightarrow> length (split (strip line) comma) = 2"
    using assms by (rule well_formed_lines)
  then have "\<exists>versions. parse_versions data = Inr versions
     \<and> length versions = length (filter (\<lambda>line. line \<noteq> []) (split (strip data) newline))
     \<and> length versions = length (filter (\<lambda>line. strip line \<noteq> []) (split data newline))
     \<and> map (\<lambda>v. version v @ comma # build_id v) versions = nonblank_lines data
     \<and> (\<forall>v\<in>set versions. comma \<notin> set (version v) \<and> comma \<notin> set (build_id v))"
    by (rule parse_versions_accepted)
  then show ?thesis by blast
qed

theorem parse_versions_well_formed_witness:
  "(\<exists>versions.
      parse_versions (lit ''\<newline>0.45.11,250207y6nbaw5qc\<newline>\<newline>  0.45.10,250205buadkzpea \<newline>'') = Inr versions
    \<and> length versions = length (filter (\<lambda>line. strip line \<noteq> [])
          (split (lit ''\<newline>0.45.11,250207y6nbaw5qc\<newline>\<newline>  0.45.10,250205buadkzpea \<newline>'') newline))
    \<and> length versions = length (filter (\<lambda>line. line \<noteq> [])
          (split (strip (lit ''\<newline>0.45.11,250207y6nbaw5qc\<newline>\<newline>  0.45.10,250205buadkzpea \<newline>'')) newline))
    \<and> map (\<lambda>v. version v @ comma # build_id v) versions =
          nonblank_lines (lit ''\<newline>0.45.11,250207y6nbaw5qc\<newline>\<newline>  0.45.10,250205buadkzpea \<newline>'')
    \<and> (\<forall>v\<in>set versions. comma \<notin> set (version v) \<and> comma \<notin> set (build_id v)))
   \<and> parse_versions (lit ''\<newline>0.45.11,250207y6nbaw5qc\<newline>\<newline>  0.45.10,250205buadkzpea \<newline>'') =
       Inr [\<lparr>version = lit ''0.45.11'', build_id = lit ''250207y6nbaw5qc''\<rparr>,
            \<lparr>version = lit ''0.45.10'', build_id = lit ''250205buadkzpea''\<rparr>]
   \<and> nonblank_lines (lit ''\<newline>0.45.11,250207y6nbaw5qc\<newline>\<newline>  0.45.10,250205buadkzpea \<newline>'') =
       [lit ''0.45.11,250207y6nbaw5qc'', lit ''0.45.10,250205buadkzpea'']"
proof (intro conjI)
  show "\<exists>versions.
      parse_versions (lit ''\<newline>0.45.11,250207y6nbaw5qc\<newline>\<newline>  0.45.10,250205buadkzpea \<newline>'') = Inr versions
    \<and> length versions = length (filter (\<lambda>line. strip line \<noteq> [])
          (split (lit ''\<newline>0.45.11,250207y6nbaw5qc\<newline>\<newline>  0.45.10,250205buadkzpea \<newline>'') newline))
    \<and> length versions = length (filter (\<lambda>line. line \<noteq> [])
          (split (strip (lit ''\<newline>0.45.11,250207y6nbaw5qc\<newline>\<newline>  0.45.10,250205buadkzpea \<newline>'')) newline))
    \<and> map (\<lambda>v. version v @ comma # build_id v) versions =
          nonblank_lines (lit ''\<newline>0.45.11,250207y6nbaw5qc\<newline>\<newline>  0.45.10,250205buadkzpea \<newline>'')
    \<and> (\<forall>v\<in>set versions. comma \<notin> set (version v) \<and> comma \<notin> set (build_id v))"
    by (rule parse_versions_well_formed) (simp_all add: eval_defs)
  show "parse_versions (lit ''\<newline>0.45.11,250207y6nbaw5qc\<newline>\<newline>  0.45.10,250205buadkzpea \<newline>'') =
       Inr [\<lparr>version = lit ''0.45.11'', build_id = lit ''250207y6nbaw5qc''\<rparr>,
            \<lparr>version = lit ''0.45.10'', build_id = lit ''250205buadkzpea''\<rparr>]"
    by (simp add: eval_defs)
  show "nonblank_lines (lit ''\<newline>0.45.11,250207y6nbaw5qc\<newline>\<newline>  0.45.10,250205buadkzpea \<newline>'') =
       [lit ''0.45.11,250207y6nbaw5qc'', lit ''0.45.10,250205buadkzpea'']"
    by (simp add: nonblank_lines_def eval_defs)
qed

text \<open>
  The claim fails on a text with a line of one space between two lines of records:
  the lines that are not blank are the two lines of records, each splits into two
  fields, so the text is well formed in the claim's words and the claim gives it two
  records; the parse raises and returns none.
\<close>

theorem interior_whitespace_counterexample:
  "split (lit ''a,b\<newline> \<newline>c,d'') newline = [lit ''a,b'', lit '' '', lit ''c,d'']
   \<and> strip (lit '' '') = []
   \<and> nonblank_lines (lit ''a,b\<newline> \<newline>c,d'') = [lit ''a,b'', lit ''c,d'']
   \<and> length (split (strip (lit ''a,b'')) comma) = 2
   \<and> length (split (strip (lit ''c,d'')) comma) = 2
   \<and> parse_versions (lit ''a,b\<newline> \<newline>c,d'') = Inl ValueError"
  by (simp add: nonblank_lines_def eval_defs)

text \<open>
  Claim C3. If the text has a line that is not blank and does not split, once
  stripped, into exactly two fields at the commas (it has no comma, or more than one),
  then \<^verbatim>\<open>parse_versions\<close> fails with the error and returns no list of records at
  all, whatever the other lines are. The line may be read either way: as a non-empty
  line of the stripped text, which is what the loop sees, or as a line of the input
  itself that has a character other than white space.
\<close>

theorem parse_versions_malformed_line:
  assumes "(\<exists>line\<in>set (split (strip data) newline). line \<noteq> [] \<and> length (split (strip line) comma) \<noteq> 2)
         \<or> (\<exists>line\<in>set (split data newline). strip line \<noteq> [] \<and> length (split (strip line) comma) \<noteq> 2)"
  shows "parse_versions data = Inl ValueError"
proof -
  have "\<exists>line\<in>set (split (strip data) newline). line \<noteq> [] \<and> length (split (strip line) comma) \<noteq> 2"
    using assms
  proof
    assume "\<exists>line\<in>set (split (strip data) newline). line \<noteq> [] \<and> length (split (strip line) comma) \<noteq> 2"
    then show ?thesis .
  next
    assume "\<exists>line\<in>set (split data newline). strip line \<noteq> [] \<and> length (split (strip line) comma) \<noteq> 2"
    then obtain line where l: "line \<in> set (split data newline)" and n: "strip line \<noteq> []"
      and b: "length (split (strip line) comma) \<noteq> 2" by blast
    from l n have "strip line \<in> set (nonblank_lines data)"
      by (simp add: nonblank_lines_def)
    then have "strip line \<in> set (nonblank_lines (strip data))"
      by (simp add: nonblank_lines_strip)
    then obtain line' where "line' \<in> set (split (strip data) newline)" and "strip line' \<noteq> []"
      and "strip line' = strip line"
      by (auto simp: nonblank_lines_def)
    moreover from this have "line' \<noteq> []" by auto
    ultimately show ?thesis using b by metis
  qed
  then show ?thesis
    by (auto simp add: parse_versions_def parse_lines_eq)
qed

theorem parse_versions_malformed_line_witness:
  "lit ''0.45.10'' \<in> set (split (lit ''0.45.11,250207y6nbaw5qc\<newline>0.45.10\<newline>'') newline)
   \<and> strip (lit ''0.45.10'') \<noteq> []
   \<and> length (split (strip (lit ''0.45.10'')) comma) \<noteq> 2
   \<and> parse_versions (lit ''0.45.11,250207y6nbaw5qc\<newline>0.45.10\<newline>'') = Inl ValueError"
proof -
  have 1: "lit ''0.45.10'' \<in> set (split (lit ''0.45.11,250207y6nbaw5qc\<newline>0.45.10\<newline>'') newline)"
    by (simp add: eval_defs)
  have 2: "strip (lit ''0.45.10'') \<noteq> []"
    by (simp add: eval_defs)
  have 3: "length (split (strip (lit ''0.45.10'')) comma) \<noteq> 2"
    by (simp add: eval_defs)
  have "parse_versions (lit ''0.45.11,250207y6nbaw5qc\<newline>0.45.10\<newline>'') = Inl ValueError"
    by (rule parse_versions_malformed_line) (use 1 2 3 in blast)
  with 1 2 3 show ?thesis by (intro conjI)
qed

lemma length_split_two_iff: "length (split s sep) = 2 \<longleftrightarrow> count_list s sep = 1"
  by (simp add: length_split)

text \<open>
  Claim C2, as the code has it. The claim says a line is split at its first comma
  only, so that the build identifier may hold commas; the code splits at every comma
  and fails unless that gives two parts. What holds: each non-empty line of the
  stripped text is stripped itself and must have exactly one comma; it then gives the
  record whose version is the text before that comma and whose build identifier is the
  text after it, and nothing else about the two fields is checked. If a non-empty line
  has no comma or more than one, the whole parse fails.
\<close>

theorem parse_versions_fields:
  "parse_versions data =
     (let lines = filter (\<lambda>line. line \<noteq> []) (split (strip data) newline) in
      if \<forall>line\<in>set lines. count_list (strip line) comma = 1
      then Inr (map (\<lambda>line. \<lparr>version = fst (split_first_comma (strip line)),
                               build_id = snd (split_first_comma (strip line))\<rparr>) lines)
      else Inl ValueError)"
proof -
  have "line_record = (\<lambda>line. \<lparr>version = fst (split_first_comma (strip line)),
                               build_id = snd (split_first_comma (strip line))\<rparr>)"
    by (rule ext) (simp add: line_record_def)
  then show ?thesis
    by (auto simp add: parse_versions_def parse_lines_eq length_split_two_iff Let_def)
qed

theorem parse_versions_fields_witness:
  "parse_versions (lit ''\<newline>0.45.11,250207y6nbaw5qc\<newline>0.45.10,250205buadkzpea\<newline>'') =
     Inr [\<lparr>version = lit ''0.45.11'', build_id = lit ''250207y6nbaw5qc''\<rparr>,
          \<lparr>version = lit ''0.45.10'', build_id = lit ''250205buadkzpea''\<rparr>]"
  unfolding parse_versions_fields by (simp add: eval_defs split_first_comma_def)

text \<open>
  The claim fails on a line with two commas: splitting at the first comma would give
  the build identifier \<^verbatim>\<open>250207,y6nbaw5qc\<close>, and the code raises instead.
\<close>

theorem first_comma_split_counterexample:
  "parse_versions (lit ''0.45.11,250207,y6nbaw5qc'') = Inl ValueError
   \<and> split_first_comma (lit ''0.45.11,250207,y6nbaw5qc'') = (lit ''0.45.11'', lit ''250207,y6nbaw5qc'')"
  by (simp add: eval_defs split_first_comma_def)

lemma parse_lines_empty_line:
  "parse_lines (xs @ [] # ys) acc = parse_lines (xs @ ys) acc"
  by (auto simp add: parse_lines_eq)

lemma parse_versions_empty_line:
  "parse_versions (a @ newline # newline # b) = parse_versions (a @ newline # b)"
proof (cases "strip a = []")
  case True
  have "strip (a @ newline # newline # b) = strip (newline # newline # b)"
    using True by (rule strip_space_left)
  also have "\<dots> = strip b"
    using strip_space_left [of "[newline, newline]" b] by (simp add: strip_eq_Nil_iff)
  finally have 1: "strip (a @ newline # newline # b) = strip b" .
  have "strip (a @ newline # b) = strip (newline # b)"
    using True by (rule strip_space_left)
  also have "\<dots> = strip b"
    using strip_space_left [of "[newline]" b] by (simp add: strip_eq_Nil_iff)
  finally have 2: "strip (a @ newline # b) = strip b" .
  show ?thesis by (simp add: parse_versions_def 1 2)
next
  case a: False
  show ?thesis
  proof (cases "strip b = []")
    case True
    have "strip (a @ [newline, newline] @ b) = strip a"
      using strip_space_right [of "[newline, newline] @ b" a] True
      by (simp add: strip_eq_Nil_iff)
    moreover have "strip (a @ [newline] @ b) = strip a"
      using strip_space_right [of "[newline] @ b" a] True
      by (simp add: strip_eq_Nil_iff)
    ultimately show ?thesis by (simp add: parse_versions_def)
  next
    case b: False
    have "strip (a @ [newline, newline] @ b) = lstrip a @ [newline, newline] @ rstrip b"
      using a b by (rule strip_middle)
    then have 1: "strip (a @ newline # newline # b) = lstrip a @ newline # newline # rstrip b"
      by simp
    have "strip (a @ [newline] @ b) = lstrip a @ [newline] @ rstrip b"
      using a b by (rule strip_middle)
    then have 2: "strip (a @ newline # b) = lstrip a @ newline # rstrip b"
      by simp
    have 3: "split (lstrip a @ newline # newline # rstrip b) newline =
        split (lstrip a) newline @ [] # split (rstrip b) newline"
      by (simp add: split_append split_Cons)
    have 4: "split (lstrip a @ newline # rstrip b) newline =
        split (lstrip a) newline @ split (rstrip b) newline"
      by (simp add: split_append)
    show ?thesis
      unfolding parse_versions_def 1 2 3 4 by (rule parse_lines_empty_line)
  qed
qed

text \<open>
  Claim C9, as the code has it. The claim says blank lines anywhere are ignored; the
  code ignores the lines that are empty, and white space at the two ends of the text.
  What holds: an empty line put between any two parts of a text, or taken out, changes
  nothing in the result of \<^verbatim>\<open>parse_versions\<close>, records and error alike; and so does
  any run of white space, blank lines among it, put before the text or after it. A
  line of white space between two lines of records is left out of the statement: it
  is not ignored.
\<close>

theorem empty_lines_ignored:
  "parse_versions (a @ newline # newline # b) = parse_versions (a @ newline # b)
   \<and> (strip w = [] \<longrightarrow>
        parse_versions (w @ data) = parse_versions data \<and> parse_versions (data @ w) = parse_versions data)"
proof (intro conjI impI)
  show "parse_versions (a @ newline # newline # b) = parse_versions (a @ newline # b)"
    by (rule parse_versions_empty_line)
next
  assume "strip w = []"
  then show "parse_versions (w @ data) = parse_versions data"
    by (simp add: parse_versions_def strip_space_left)
next
  assume "strip w = []"
  then show "parse_versions (data @ w) = parse_versions data"
    by (simp add: parse_versions_def strip_space_right)
qed

theorem empty_lines_ignored_witness:
  "strip (lit ''\<newline>  \<newline>'') = []
   \<and> parse_versions (lit ''0.45.11,250207y6nbaw5qc'' @ newline # newline # lit ''0.45.10,250205buadkzpea'') =
       parse_versions (lit ''0.45.11,250207y6nbaw5qc'' @ newline # lit ''0.45.10,250205buadkzpea'')
   \<and> parse_versions (lit ''\<newline>  \<newline>'' @ lit ''0.45.11,250207y6nbaw5qc'') =
       parse_versions (lit ''0.45.11,250207y6nbaw5qc'')
   \<and> parse_versions (lit ''0.45.11,250207y6nbaw5qc'' @ lit ''\<newline>  \<newline>'') =
       parse_versions (lit ''0.45.11,250207y6nbaw5qc'')"
proof -
  have h: "strip (lit ''\<newline>  \<newline>'') = []"
    by (simp add: eval_defs)
  from empty_lines_ignored [of "lit ''0.45.11,250207y6nbaw5qc''" "lit ''0.45.10,250205buadkzpea''"
      "lit ''\<newline>  \<newline>''" "lit ''0.45.11,250207y6nbaw5qc''"] h
  show ?thesis by blast
qed

text \<open>
  The claim fails on a line that holds one space: with it the parse raises, without it
  the same two lines give two records.
\<close>

theorem whitespace_line_counterexample:
  "parse_versions (lit ''0.45.11,250207y6nbaw5qc\<newline> \<newline>0.45.10,250205buadkzpea'') = Inl ValueError
   \<and> parse_versions (lit ''0.45.11,250207y6nbaw5qc\<newline>0.45.10,250205buadkzpea'') =
       Inr [\<lparr>version = lit ''0.45.11'', build_id = lit ''250207y6nbaw5qc''\<rparr>,
            \<lparr>version = lit ''0.45.10'', build_id = lit ''250205buadkzpea''\<rparr>]"
  by (simp add: eval_defs)

text \<open>
  Claim C10. A line that is not empty and holds only white space, standing between
  two parts of the text that both have a character other than white space, is not
  skipped: the emptiness test comes before the line is stripped, the stripped line
  splits into one part, and the whole parse fails. The lines the parser skips are the
  empty ones only: when a parse succeeds it has one record for every non-empty line
  of the stripped text. White space at the start or at the end of the text, lines of
  it included, goes with the strip of the whole text and changes nothing.
\<close>

theorem whitespace_line_not_skipped:
  "(strip a \<noteq> [] \<and> strip b \<noteq> [] \<and> w \<noteq> [] \<and> strip w = [] \<and> newline \<notin> set w \<longrightarrow>
      parse_versions (a @ newline # w @ newline # b) = Inl ValueError)
   \<and> (parse_versions data = Inr versions \<longrightarrow>
      length versions = length (filter (\<lambda>line. line \<noteq> []) (split (strip data) newline)))
   \<and> (strip w = [] \<longrightarrow>
      parse_versions (w @ newline # data) = parse_versions data \<and>
      parse_versions (data @ newline # w) = parse_versions data)"
proof (intro conjI impI)
  assume "strip a \<noteq> [] \<and> strip b \<noteq> [] \<and> w \<noteq> [] \<and> strip w = [] \<and> newline \<notin> set w"
  then have a: "strip a \<noteq> []" and b: "strip b \<noteq> []" and w: "w \<noteq> []" and s: "strip w = []"
    and n: "newline \<notin> set w" by simp_all
  have "strip (a @ (newline # w @ [newline]) @ b) = lstrip a @ (newline # w @ [newline]) @ rstrip b"
    using a b by (rule strip_middle)
  then have 1: "strip (a @ newline # w @ newline # b) = lstrip a @ newline # w @ newline # rstrip b"
    by simp
  have 2: "split (lstrip a @ newline # w @ newline # rstrip b) newline =
      split (lstrip a) newline @ w # split (rstrip b) newline"
    using n by (simp add: split_append split_no_sep)
  have "\<not> (\<forall>l\<in>set (split (lstrip a) newline @ w # split (rstrip b) newline).
           l \<noteq> [] \<longrightarrow> length (split (strip l) comma) = 2)"
    using w s by auto
  then show "parse_versions (a @ newline # w @ newline # b) = Inl ValueError"
    unfolding parse_versions_def 1 2 parse_lines_eq by (simp only: if_False)
next
  assume "parse_versions data = Inr versions"
  then show "length versions = length (filter (\<lambda>line. line \<noteq> []) (split (strip data) newline))"
    by (auto simp add: parse_versions_def parse_lines_eq split: if_splits)
next
  assume "strip w = []"
  then have "strip (w @ [newline]) = []"
    by (simp add: strip_eq_Nil_iff)
  then have "strip ((w @ [newline]) @ data) = strip data"
    by (rule strip_space_left)
  then show "parse_versions (w @ newline # data) = parse_versions data"
    by (simp add: parse_versions_def)
next
  assume "strip w = []"
  then have "strip (newline # w) = []"
    by (simp add: strip_eq_Nil_iff)
  then have "strip (data @ newline # w) = strip data"
    by (rule strip_space_right)
  then show "parse_versions (data @ newline # w) = parse_versions data"
    by (simp add: parse_versions_def)
qed

theorem whitespace_line_not_skipped_witness:
  "strip (lit ''0.45.11,250207y6nbaw5qc'') \<noteq> [] \<and> strip (lit ''0.45.10,250205buadkzpea'') \<noteq> []
   \<and> lit '' '' \<noteq> [] \<and> strip (lit '' '') = [] \<and> newline \<notin> set (lit '' '')
   \<and> parse_versions (lit ''0.45.11,250207y6nbaw5qc'' @ newline # lit '' '' @ newline # lit ''0.45.10,250205buadkzpea'')
       = Inl ValueError
   \<and> parse_versions (lit ''0.45.11,250207y6nbaw5qc\<newline>\<newline>0.45.10,250205buadkzpea'') =
       Inr [\<lparr>version = lit ''0.45.11'', build_id = lit ''250207y6nbaw5qc''\<rparr>,
            \<lparr>version = lit ''0.45.10'', build_id = lit ''250205buadkzpea''\<rparr>]
   \<and> length [\<lparr>version = lit ''0.45.11'', build_id = lit ''250207y6nbaw5qc''\<rparr>,
              \<lparr>version = lit ''0.45.10'', build_id = lit ''250205buadkzpea''\<rparr>] =
       length (filter (\<lambda>line. line \<noteq> [])
         (split (strip (lit ''0.45.11,250207y6nbaw5qc\<newline>\<newline>0.45.10,250205buadkzpea'')) newline))
   \<and> parse_versions (lit '' '' @ newline # lit ''0.45.11,250207y6nbaw5qc\<newline>\<newline>0.45.10,250205buadkzpea'') =
       parse_versions (lit ''0.45.11,250207y6nbaw5qc\<newline>\<newline>0.45.10,250205buadkzpea'')
   \<and> parse_versions (lit ''0.45.11,250207y6nbaw5qc\<newline>\<newline>0.45.10,250205buadkzpea'' @ newline # lit '' '') =
       parse_versions (lit ''0.45.11,250207y6nbaw5qc\<newline>\<newline>0.45.10,250205buadkzpea'')"
proof -
  have h: "strip (lit ''0.45.11,250207y6nbaw5qc'') \<noteq> []" "strip (lit ''0.45.10,250205buadkzpea'') \<noteq> []"
      "lit '' '' \<noteq> []" "strip (lit '' '') = []" "newline \<notin> set (lit '' '')"
    by (simp_all add: eval_defs)
  have p: "parse_versions (lit ''0.45.11,250207y6nbaw5qc\<newline>\<newline>0.45.10,250205buadkzpea'') =
       Inr [\<lparr>version = lit ''0.45.11'', build_id = lit ''250207y6nbaw5qc''\<rparr>,
            \<lparr>version = lit ''0.45.10'', build_id = lit ''250205buadkzpea''\<rparr>]"
    by (simp add: eval_defs)
  from whitespace_line_not_skipped [of "lit ''0.45.11,250207y6nbaw5qc''" "lit ''0.45.10,250205buadkzpea''"
      "lit '' ''" "lit ''0.45.11,250207y6nbaw5qc\<newline>\<newline>0.45.10,250205buadkzpea''"
      "[\<lparr>version = lit ''0.45.11'', build_id = lit ''250207y6nbaw5qc''\<rparr>,
        \<lparr>version = lit ''0.45.10'', build_id = lit ''250205buadkzpea''\<rparr>]"] h p
  show ?thesis by blast
qed

section \<open>The round trip\<close>

lemma lstrip_comma: "lstrip (x @ comma # y) = lstrip x @ comma # y"
  by (induction x) (simp_all add: lstrip_def)

lemma rstrip_comma: "rstrip (x @ comma # y) = x @ comma # rstrip y"
proof -
  have "dropWhile is_space (rev y @ comma # rev x) = dropWhile is_space (rev y) @ comma # rev x"
    by (induction "rev y" arbitrary: y) (simp_all add: dropWhile_append3)
  then show ?thesis by (simp add: rstrip_def)
qed

lemma strip_comma: "strip (x @ comma # y) = lstrip x @ comma # rstrip y"
  by (simp add: strip_def lstrip_comma rstrip_comma)

lemma lstrip_id_iff: "lstrip s = s \<longleftrightarrow> s = [] \<or> \<not> is_space (hd s)"
  by (simp add: lstrip_def dropWhile_eq_self_iff)

lemma rstrip_id_iff: "rstrip s = s \<longleftrightarrow> s = [] \<or> \<not> is_space (last s)"
proof -
  have "rstrip s = s \<longleftrightarrow> dropWhile is_space (rev s) = rev s"
    unfolding rstrip_def by (metis rev_rev_ident)
  then show ?thesis by (simp add: dropWhile_eq_self_iff hd_rev)
qed

lemma strip_id:
  assumes "s \<noteq> []" and "\<not> is_space (hd s)" and "\<not> is_space (last s)"
  shows "strip s = s"
proof -
  have "lstrip s = s" using assms(2) by (simp add: lstrip_id_iff)
  moreover have "rstrip s = s" using assms(3) by (simp add: rstrip_id_iff)
  ultimately show ?thesis by (simp add: strip_def)
qed

lemma join_lines_eq_Nil_iff: "join_lines ls = [] \<longleftrightarrow> ls = [] \<or> ls = [[]]"
  by (induction ls rule: join_lines.induct) simp_all

lemma hd_join_lines: "ls \<noteq> [] \<Longrightarrow> hd ls \<noteq> [] \<Longrightarrow> hd (join_lines ls) = hd (hd ls)"
  by (induction ls rule: join_lines.induct) simp_all

lemma last_join_lines: "ls \<noteq> [] \<Longrightarrow> last ls \<noteq> [] \<Longrightarrow> last (join_lines ls) = last (last ls)"
  by (induction ls rule: join_lines.induct) (auto simp add: join_lines_eq_Nil_iff split: if_splits)

lemma join_lines_not_Nil: "ls \<noteq> [] \<Longrightarrow> hd ls \<noteq> [] \<Longrightarrow> join_lines ls \<noteq> []"
  by (auto simp: join_lines_eq_Nil_iff)

lemma split_join_lines:
  "ls \<noteq> [] \<Longrightarrow> \<forall>l\<in>set ls. newline \<notin> set l \<Longrightarrow> split (join_lines ls) newline = ls"
  by (induction ls rule: join_lines.induct) (simp_all add: split_no_sep split_append)

lemma strip_join_lines:
  assumes "ls \<noteq> []" and "\<forall>l\<in>set ls. l \<noteq> [] \<and> \<not> is_space (hd l) \<and> \<not> is_space (last l)"
  shows "strip (join_lines ls) = join_lines ls"
proof (rule strip_id)
  have h: "hd ls \<in> set ls" and l: "last ls \<in> set ls" using assms(1) by simp_all
  show "join_lines ls \<noteq> []" using assms h by (simp add: join_lines_not_Nil)
  show "\<not> is_space (hd (join_lines ls))" using assms h by (simp add: hd_join_lines)
  show "\<not> is_space (last (join_lines ls))" using assms l by (simp add: last_join_lines)
qed

lemma record_line_good:
  assumes "lstrip (version v) = version v" and "rstrip (build_id v) = build_id v"
  shows "record_line v \<noteq> []" and "\<not> is_space (hd (record_line v))"
    and "\<not> is_space (last (record_line v))" and "strip (record_line v) = record_line v"
proof -
  show "record_line v \<noteq> []" by (simp add: record_line_def)
  show "\<not> is_space (hd (record_line v))"
    using assms(1) by (cases "version v") (auto simp: record_line_def lstrip_id_iff)
  show "\<not> is_space (last (record_line v))"
    using assms(2) by (cases "build_id v" rule: rev_cases) (auto simp: record_line_def rstrip_id_iff)
  show "strip (record_line v) = record_line v"
    using assms by (simp add: record_line_def strip_comma)
qed

lemma line_record_record_line:
  assumes "comma \<notin> set (version v)" and "lstrip (version v) = version v"
    and "rstrip (build_id v) = build_id v"
  shows "line_record (record_line v) = v"
proof -
  have "strip (record_line v) = version v @ comma # build_id v"
    using assms by (simp add: record_line_good(4)) (simp add: record_line_def)
  then show ?thesis
    using assms(1) by (simp add: line_record_def split_first_comma_one)
qed

lemma parse_lines_record_lines:
  assumes "\<forall>v\<in>set versions. comma \<notin> set (version v) \<and> comma \<notin> set (build_id v)
      \<and> lstrip (version v) = version v \<and> rstrip (build_id v) = build_id v"
  shows "parse_lines (map record_line versions) [] = Inr versions"
proof -
  have two: "length (split (strip (record_line v)) comma) = 2" if "v \<in> set versions" for v
  proof -
    have "strip (record_line v) = version v @ comma # build_id v"
      using assms that by (simp add: record_line_good(4)) (simp add: record_line_def)
    then show ?thesis using assms that by (simp add: split_append split_no_sep)
  qed
  have ne: "filter (\<lambda>l. l \<noteq> []) (map record_line versions) = map record_line versions"
    by (simp add: record_line_def)
  have "map line_record (map record_line versions) = versions"
    using assms by (simp add: line_record_record_line map_idI)
  then show ?thesis
    using two by (simp add: parse_lines_eq ne)
qed

text \<open>
  Claim C5, as the code has it. The claim speaks of every list of records; the parser
  strips each line and cuts it at every comma, so a field with a comma or a newline,
  a version that begins with white space and a build identifier that ends with it do
  not come back. What holds: for every list of records whose fields hold neither a
  comma nor a newline, whose versions do not begin and whose build identifiers do not
  end with white space, parsing the serialised list, with or without a newline after
  the last line, returns exactly that list: as many records, the same fields, the
  same order.
\<close>

theorem parse_serialize_round_trip:
  assumes "\<forall>v\<in>set versions. comma \<notin> set (version v) \<and> comma \<notin> set (build_id v)
      \<and> newline \<notin> set (version v) \<and> newline \<notin> set (build_id v)
      \<and> lstrip (version v) = version v \<and> rstrip (build_id v) = build_id v"
  shows "parse_versions (serialize versions) = Inr versions
     \<and> parse_versions (serialize versions @ [newline]) = Inr versions"
proof -
  have 1: "parse_versions (serialize versions) = Inr versions"
  proof (cases "versions = []")
    case True
    then show ?thesis by (simp add: serialize_def parse_versions_def)
  next
    case False
    let ?ls = "map record_line versions"
    have ne: "?ls \<noteq> []" using False by simp
    have "\<forall>l\<in>set ?ls. l \<noteq> [] \<and> \<not> is_space (hd l) \<and> \<not> is_space (last l)"
      using assms by (simp add: record_line_good)
    with ne have s: "strip (join_lines ?ls) = join_lines ?ls"
      by (rule strip_join_lines)
    have "\<forall>l\<in>set ?ls. newline \<notin> set l"
      using assms by (simp add: record_line_def)
    with ne have "split (join_lines ?ls) newline = ?ls"
      by (rule split_join_lines)
    with s have "parse_versions (serialize versions) = parse_lines ?ls []"
      by (simp add: parse_versions_def serialize_def)
    also have "\<dots> = Inr versions"
      using assms by (intro parse_lines_record_lines) simp
    finally show ?thesis .
  qed
  have "strip (serialize versions @ [newline]) = strip (serialize versions)"
    by (intro strip_space_right strip_single_space) simp
  then have "parse_versions (serialize versions @ [newline]) = parse_versions (serialize versions)"
    by (simp add: parse_versions_def)
  with 1 show ?thesis by simp
qed

theorem parse_serialize_round_trip_witness:
  "serialize [\<lparr>version = lit ''0.45.11'', build_id = lit ''250207y6nbaw5qc''\<rparr>,
              \<lparr>version = lit ''0.45.10'', build_id = lit ''250205buadkzpea''\<rparr>] @ [newline] =
     lit ''0.45.11,250207y6nbaw5qc\<newline>0.45.10,250205buadkzpea\<newline>''
   \<and> parse_versions (serialize [\<lparr>version = lit ''0.45.11'', build_id = lit ''250207y6nbaw5qc''\<rparr>,
                                \<lparr>version = lit ''0.45.10'', build_id = lit ''250205buadkzpea''\<rparr>]) =
       Inr [\<lparr>version = lit ''0.45.11'', build_id = lit ''250207y6nbaw5qc''\<rparr>,
            \<lparr>version = lit ''0.45.10'', build_id = lit ''250205buadkzpea''\<rparr>]
   \<and> parse_versions (serialize [\<lparr>version = lit ''0.45.11'', build_id = lit ''250207y6nbaw5qc''\<rparr>,
                                \<lparr>version = lit ''0.45.10'', build_id = lit ''250205buadkzpea''\<rparr>] @ [newline]) =
       Inr [\<lparr>version = lit ''0.45.11'', build_id = lit ''250207y6nbaw5qc''\<rparr>,
            \<lparr>version = lit ''0.45.10'', build_id = lit ''250205buadkzpea''\<rparr>]"
proof -
  have s: "serialize [\<lparr>version = lit ''0.45.11'', build_id = lit ''250207y6nbaw5qc''\<rparr>,
              \<lparr>version = lit ''0.45.10'', build_id = lit ''250205buadkzpea''\<rparr>] @ [newline] =
     lit ''0.45.11,250207y6nbaw5qc\<newline>0.45.10,250205buadkzpea\<newline>''"
    by (simp add: serialize_def record_line_def eval_defs)
  have "parse_versions (serialize [\<lparr>version = lit ''0.45.11'', build_id = lit ''250207y6nbaw5qc''\<rparr>,
                                \<lparr>version = lit ''0.45.10'', build_id = lit ''250205buadkzpea''\<rparr>]) =
       Inr [\<lparr>version = lit ''0.45.11'', build_id = lit ''250207y6nbaw5qc''\<rparr>,
            \<lparr>version = lit ''0.45.10'', build_id = lit ''250205buadkzpea''\<rparr>]
   \<and> parse_versions (serialize [\<lparr>version = lit ''0.45.11'', build_id = lit ''250207y6nbaw5qc''\<rparr>,
                                \<lparr>version = lit ''0.45.10'', build_id = lit ''250205buadkzpea''\<rparr>] @ [newline]) =
       Inr [\<lparr>version = lit ''0.45.11'', build_id = lit ''250207y6nbaw5qc''\<rparr>,
            \<lparr>version = lit ''0.45.10'', build_id = lit ''250205buadkzpea''\<rparr>]"
    by (rule parse_serialize_round_trip) (simp add: eval_defs)
  with s show ?thesis by (intro conjI) simp_all
qed

text \<open>
  The claim fails on a version with a comma and on a build identifier with a newline,
  where the parse raises, and on white space at the start of a version or at the end
  of a build identifier, which the parse drops.
\<close>

theorem round_trip_counterexample:
  "parse_versions (serialize [\<lparr>version = lit ''0,45'', build_id = lit ''250207y6nbaw5qc''\<rparr>]) = Inl ValueError
   \<and> parse_versions (serialize [\<lparr>version = lit ''0.45'', build_id = lit ''250207\<newline>y6nbaw5qc''\<rparr>]) = Inl ValueError
   \<and> parse_versions (serialize [\<lparr>version = lit '' 0.45'', build_id = lit ''250207y6nbaw5qc''\<rparr>]) =
       Inr [\<lparr>version = lit ''0.45'', build_id = lit ''250207y6nbaw5qc''\<rparr>]
   \<and> parse_versions (serialize [\<lparr>version = lit ''0.45'', build_id = lit ''250207y6nbaw5qc ''\<rparr>]) =
       Inr [\<lparr>version = lit ''0.45'', build_id = lit ''250207y6nbaw5qc''\<rparr>]"
  by (simp add: serialize_def record_line_def eval_defs)

section \<open>The renderers\<close>





lemma append_version_infos_eq:
  "append_version_infos versions acc =
     acc @ map (\<lambda>v. JObject [(lit ''version'', JString (version v)),
                              (lit ''build_id'', JString (build_id v)),
                              (lit ''downloads'', links_json (get_download_links v))]) versions"
  by (induction versions arbitrary: acc) simp_all

lemma links_json_get_download_links:
  "links_json (get_download_links v) =
     JObject
      [(lit ''windows'', JObject
          [(lit ''x64'', JString (lit ''https://downloader.cursor.sh/builds/'' @ build_id v @ lit ''/windows/nsis/x64'')),
           (lit ''arm64'', JString (lit ''https://downloader.cursor.sh/builds/'' @ build_id v @ lit ''/windows/nsis/arm64''))]),
       (lit ''mac'', JObject
          [(lit ''universal'', JString (lit ''https://downloader.cursor.sh/builds/'' @ build_id v @ lit ''/mac/installer/universal'')),
           (lit ''arm64'', JString (lit ''https://downloader.cursor.sh/builds/'' @ build_id v @ lit ''/mac/installer/arm64'')),
           (lit ''x64'', JString (lit ''https://downloader.cursor.sh/builds/'' @ build_id v @ lit ''/mac/installer/x64''))]),
       (lit ''linux'', JObject
          [(lit ''x64'', JString (lit ''https://downloader.cursor.sh/builds/'' @ build_id v @ lit ''/linux/appImage/x64''))])]"
  by (simp add: links_json_def get_download_links_def Let_def)

text \<open>
  Claim C7. For every list of records the structured output is one dictionary with
  the single key \<^verbatim>\<open>versions\<close>, whose value is a list with one element per record,
  in the order of the records; each element is a dictionary with exactly the keys
  \<^verbatim>\<open>version\<close>, \<^verbatim>\<open>build_id\<close> and \<^verbatim>\<open>downloads\<close>, holding the record's version, its build
  identifier and the whole nested dictionary of the record's links: under each of the
  three platforms its architectures, and under each architecture the URL made of
  \<^verbatim>\<open>https://downloader.cursor.sh/builds/\<close>, the build identifier and the suffix of
  the suffix table, which is the dictionary \<^verbatim>\<open>get_download_links\<close> returns for
  the record.
\<close>

theorem json_result_versions:
  "json_result versions =
     JObject [(lit ''versions'',
        JArray (map (\<lambda>v. JObject
          [(lit ''version'', JString (version v)),
           (lit ''build_id'', JString (build_id v)),
           (lit ''downloads'', JObject
              [(lit ''windows'', JObject
                  [(lit ''x64'', JString (lit ''https://downloader.cursor.sh/builds/'' @ build_id v @ lit ''/windows/nsis/x64'')),
                   (lit ''arm64'', JString (lit ''https://downloader.cursor.sh/builds/'' @ build_id v @ lit ''/windows/nsis/arm64''))]),
               (lit ''mac'', JObject
                  [(lit ''universal'', JString (lit ''https://downloader.cursor.sh/builds/'' @ build_id v @ lit ''/mac/installer/universal'')),
                   (lit ''arm64'', JString (lit ''https://downloader.cursor.sh/builds/'' @ build_id v @ lit ''/mac/installer/arm64'')),
                   (lit ''x64'', JString (lit ''https://downloader.cursor.sh/builds/'' @ build_id v @ lit ''/mac/installer/x64''))]),
               (lit ''linux'', JObject
                  [(lit ''x64'', JString (lit ''https://downloader.cursor.sh/builds/'' @ build_id v @ lit ''/linux/appImage/x64''))])])])
          versions))]
   \<and> length (append_version_infos versions []) = length versions"
proof (intro conjI)
  show "json_result versions =
     JObject [(lit ''versions'',
        JArray (map (\<lambda>v. JObject
          [(lit ''version'', JString (version v)),
           (lit ''build_id'', JString (build_id v)),
           (lit ''downloads'', JObject
              [(lit ''windows'', JObject
                  [(lit ''x64'', JString (lit ''https://downloader.cursor.sh/builds/'' @ build_id v @ lit ''/windows/nsis/x64'')),
                   (lit ''arm64'', JString (lit ''https://downloader.cursor.sh/builds/'' @ build_id v @ lit ''/windows/nsis/arm64''))]),
               (lit ''mac'', JObject
                  [(lit ''universal'', JString (lit ''https://downloader.cursor.sh/builds/'' @ build_id v @ lit ''/mac/installer/universal'')),
                   (lit ''arm64'', JString (lit ''https://downloader.cursor.sh/builds/'' @ build_id v @ lit ''/mac/installer/arm64'')),
                   (lit ''x64'', JString (lit ''https://downloader.cursor.sh/builds/'' @ build_id v @ lit ''/mac/installer/x64''))]),
               (lit ''linux'', JObject
                  [(lit ''x64'', JString (lit ''https://downloader.cursor.sh/builds/'' @ build_id v @ lit ''/linux/appImage/x64''))])])])
          versions))]"
    by (simp add: json_result_def append_version_infos_eq links_json_get_download_links)
  show "length (append_version_infos versions []) = length versions"
    by (simp add: append_version_infos_eq)
qed

lemma write_archs_eq:
  "write_archs ver platform archs rows = rows @ map (\<lambda>(arch, url). [ver, platform, arch, url]) archs"
  by (induction archs arbitrary: rows) auto

lemma write_platforms_eq:
  "write_platforms ver d rows = rows @ map (\<lambda>((platform, arch), url). [ver, platform, arch, url]) (entries d)"
  by (induction d arbitrary: rows) (auto simp add: write_archs_eq entries_def)

lemma write_versions_eq:
  "write_versions versions rows =
     rows @ concat (map (\<lambda>v. map (\<lambda>((platform, arch), url). [version v, platform, arch, url])
                                (entries (get_download_links v))) versions)"
  by (induction versions arbitrary: rows) (simp_all add: write_platforms_eq)

lemma length_concat_map_const:
  "(\<And>x. length (f x) = n) \<Longrightarrow> length (concat (map f xs)) = n * length xs"
  by (induction xs) simp_all

text \<open>
  Claim C6. For every list of records the table has one row more than six times the
  number of records: the row of the four column names Version, Platform,
  Architecture and Download URL, then for each record, in the order of the records,
  six rows, one per line of the suffix table and in the table's order, each holding
  the record's version, the platform, the architecture and the URL.
\<close>

theorem csv_rows_table:
  "csv_rows versions =
     [lit ''Version'', lit ''Platform'', lit ''Architecture'', lit ''Download URL''] #
     concat (map (\<lambda>v. map (\<lambda>((platform, arch), suffix).
                               [version v, platform, arch,
                                lit ''https://downloader.cursor.sh/builds/'' @ build_id v @ suffix])
                          suffix_table) versions)
   \<and> length (csv_rows versions) = 1 + 6 * length versions"
proof -
  have e: "map (\<lambda>((platform, arch), url). [version v, platform, arch, url]) (entries (get_download_links v)) =
      map (\<lambda>((platform, arch), suffix).
             [version v, platform, arch, lit ''https://downloader.cursor.sh/builds/'' @ build_id v @ suffix])
          suffix_table" for v
    by (simp add: entries_get_download_links url_of_def suffix_table_def)
  have r: "csv_rows versions =
     [lit ''Version'', lit ''Platform'', lit ''Architecture'', lit ''Download URL''] #
     concat (map (\<lambda>v. map (\<lambda>((platform, arch), suffix).
                               [version v, platform, arch,
                                lit ''https://downloader.cursor.sh/builds/'' @ build_id v @ suffix])
                          suffix_table) versions)"
    by (simp add: csv_rows_def write_versions_eq e)
  have "length (concat (map (\<lambda>v. map (\<lambda>((platform, arch), suffix).
                               [version v, platform, arch,
                                lit ''https://downloader.cursor.sh/builds/'' @ build_id v @ suffix])
                          suffix_table) versions)) = 6 * length versions"
    by (rule length_concat_map_const) (simp add: suffix_table_def)
  with r show ?thesis by simp
qed

end
